theory Spec2Isabelle
  imports Main "HOL-Library.Word"
begin

section \<open>The shared state of \<^verbatim>\<open>reader_thread.c\<close>\<close>

text \<open>
  \<^verbatim>\<open>struct reader_thread_state_s\<close>, lines 26 to 40. The C \<^verbatim>\<open>int\<close> fields are
  modelled as \<open>int\<close>; signed overflow is undefined in C, so the theorems that
  depend on the offsets assume a buffer length of at most \<open>INT_MAX\<close>, under
  which no sum of the source leaves the range. \<^verbatim>\<open>buf\<close> is the content of the allocated block, and
  an offset into it is an index into the list. The mutex \<^verbatim>\<open>mu\<close> is the field
  \<open>mu\<close> of the record \<open>system\<close> further down; the condition variable, the
  device handle \<^verbatim>\<open>h\<close> and the thread id carry no data of their own.
\<close>

type_synonym byte = "8 word"

record reader_thread_state =
  buf :: "byte list"
  head_offset :: int
  tail_offset :: int
  period_frames :: int
  period_bytes :: int
  buf_len :: int
  stop :: bool
  overrun :: bool
  error :: bool

text \<open>\<^verbatim>\<open>EPIPE\<close> comes from the system's \<^verbatim>\<open>errno.h\<close>; on Linux it is 32.\<close>

definition EPIPE :: int where
  "EPIPE = 32"

definition INT_MAX :: int where
  "INT_MAX = 2147483647"

text \<open>
  What the code does to the world outside the struct: an assignment to the
  process-wide \<^verbatim>\<open>reader_thread_error\<close> (which this file writes and never
  reads), a line on stderr, a call of the device's recovery operation
  \<^verbatim>\<open>snd_pcm_prepare\<close>, a \<^verbatim>\<open>pthread_cond_signal\<close>.
\<close>

datatype effect =
    Set_reader_thread_error string
  | Fprintf_stderr string
  | Snd_pcm_prepare
  | Pthread_cond_signal

subsection \<open>Memory\<close>

text \<open>
  \<open>slice_bytes m off n\<close> are the \<open>n\<close> bytes of \<open>m\<close> from offset \<open>off\<close>; \<open>store_bytes m off d\<close>
  writes \<open>d\<close> at offset \<open>off\<close>. An access that leaves the block is undefined in
  C; the model reads what is there and writes nothing.
\<close>

definition slice_bytes :: "byte list \<Rightarrow> int \<Rightarrow> int \<Rightarrow> byte list" where
  "slice_bytes m off n = take (nat n) (drop (nat off) m)"

definition store_bytes :: "byte list \<Rightarrow> int \<Rightarrow> byte list \<Rightarrow> byte list" where
  "store_bytes m off d =
     (if 0 \<le> off \<and> nat off + length d \<le> length m
      then take (nat off) m @ d @ drop (nat off + length d) m
      else m)"

text \<open>
  \<^verbatim>\<open>memcpy(buf, src, n)\<close>, with \<open>src\<close> the \<open>n\<close> bytes read: the first \<open>n\<close> bytes
  of the destination are replaced. A destination of fewer than \<open>n\<close> bytes is
  overrun in C (undefined); in the model the list grows.
\<close>

definition memcpy :: "byte list \<Rightarrow> byte list \<Rightarrow> byte list" where
  "memcpy dest src = src @ drop (length src) dest"

section \<open>The capture thread: \<^verbatim>\<open>reader_thread_loop\<close>\<close>

text \<open>
  Lines 55 to 64, run with the mutex held: the slot to fill, the offset after
  it, and the overrun mark when that offset is the consumer's.
\<close>

definition loop_head :: "reader_thread_state \<Rightarrow> int \<times> int \<times> reader_thread_state" where
  "loop_head s =
     (let ptr = head_offset s;
          next_offset = head_offset s + period_bytes s;
          next_offset = (if next_offset \<ge> buf_len s then 0 else next_offset);
          s = (if next_offset = tail_offset s then s\<lparr>overrun := True\<rparr> else s)
      in (ptr, next_offset, s))"

text \<open>
  Line 66, run without the mutex: \<^verbatim>\<open>snd_pcm_readi\<close> returns \<open>rc\<close> and has
  written \<open>d\<close> at \<^verbatim>\<open>ptr\<close>. The device is outside the repository: the pair
  \<open>(rc, d)\<close> is the environment's answer.
\<close>

definition device_read :: "int \<Rightarrow> byte list \<Rightarrow> reader_thread_state \<Rightarrow> reader_thread_state" where
  "device_read ptr d s = s\<lparr>buf := store_bytes (buf s) ptr d\<rparr>"

text \<open>Lines 68 to 83, run with the mutex held again: the result is classified.\<close>

definition loop_tail :: "int \<Rightarrow> int \<Rightarrow> reader_thread_state \<Rightarrow> reader_thread_state \<times> effect list" where
  "loop_tail next_offset rc s =
     (if rc = - EPIPE then
        (s\<lparr>overrun := True\<rparr>, [Fprintf_stderr ''realtime alsa overrun'', Snd_pcm_prepare])
      else if rc < 0 then
        (s\<lparr>error := True, stop := True\<rparr>, [Set_reader_thread_error ''snd_pcm_readi''])
      else if overrun s then
        (s, [])
      else
        (s\<lparr>head_offset := next_offset\<rparr>,
         if head_offset s = tail_offset s then [Pthread_cond_signal] else []))"

text \<open>One pass through the body of the \<^verbatim>\<open>while\<close>, with nothing else running in between.\<close>

definition loop_body :: "int \<times> byte list \<Rightarrow> reader_thread_state \<Rightarrow> reader_thread_state \<times> effect list" where
  "loop_body r s =
     (case loop_head s of (ptr, next_offset, s1) \<Rightarrow>
        loop_tail next_offset (fst r) (device_read ptr (snd r) s1))"


section \<open>The consumer: \<^verbatim>\<open>reader_thread_poll\<close>\<close>

text \<open>The condition of the \<^verbatim>\<open>while\<close> at line 101.\<close>

definition poll_wait :: "reader_thread_state \<Rightarrow> bool" where
  "poll_wait s \<longleftrightarrow> head_offset s = tail_offset s \<and> \<not> (overrun s \<or> error s)"

text \<open>
  Lines 104 to 117, with the mutex held: the return value, \<^verbatim>\<open>src\<close> (\<open>None\<close>
  is \<^verbatim>\<open>NULL\<close>) and the state.
\<close>

definition poll_locked :: "reader_thread_state \<Rightarrow> int \<times> int option \<times> reader_thread_state" where
  "poll_locked s =
     (if error s then (- 1, None, s)
      else if overrun s then (1, None, s\<lparr>overrun := False, tail_offset := head_offset s\<rparr>)
      else
        (let src = tail_offset s;
             s = s\<lparr>tail_offset := tail_offset s + period_bytes s\<rparr>;
             s = (if tail_offset s \<ge> buf_len s then s\<lparr>tail_offset := 0\<rparr> else s)
         in (0, Some src, s)))"

text \<open>Lines 119 to 121, after the mutex is released.\<close>

definition poll_copy :: "int \<Rightarrow> int option \<Rightarrow> byte list \<Rightarrow> reader_thread_state \<Rightarrow> byte list" where
  "poll_copy ret src dest s =
     (if ret = 0 then
        (case src of
           Some off \<Rightarrow> memcpy dest (slice_bytes (buf s) off (period_bytes s))
         | None \<Rightarrow> dest)
      else dest)"

text \<open>
  A whole call, with nothing else running in between. The destination is
  \<open>None\<close> for a null pointer. The result \<open>None\<close> is a call that does not
  return: it is inside \<^verbatim>\<open>pthread_cond_wait\<close>, and only the capture thread can
  change what it waits for.
\<close>

definition reader_thread_poll ::
  "reader_thread_state \<Rightarrow> byte list option \<Rightarrow>
   (int \<times> byte list option \<times> reader_thread_state \<times> effect list) option" where
  "reader_thread_poll s dest =
     (case dest of
        None \<Rightarrow> Some (- 1, None, s, [Set_reader_thread_error ''null buffer''])
      | Some d \<Rightarrow>
          if poll_wait s then None
          else (case poll_locked s of (ret, src, s') \<Rightarrow>
                  Some (ret, Some (poll_copy ret src d s'), s', [])))"



section \<open>Construction: \<^verbatim>\<open>reader_thread_start\<close>\<close>

text \<open>
  Lines 125 to 161. The allocator and the thread library are outside the
  repository, so their answers are arguments: \<open>state_ok\<close> says whether the
  \<^verbatim>\<open>malloc\<close> of the struct succeeds; \<open>block\<close> is \<open>None\<close> when the \<^verbatim>\<open>malloc\<close>
  of the buffer fails and otherwise gives, for each index, the byte that the
  fresh block holds (\<^verbatim>\<open>malloc\<close> does not initialise it); \<open>create_rc\<close> is the
  result of \<^verbatim>\<open>pthread_create\<close>. The \<^verbatim>\<open>memset\<close> of line 135 clears the struct.
  Line 142 multiplies two C \<^verbatim>\<open>int\<close>s: \<open>int_mul\<close> is the product as the machine
  computes it, reduced to 32 bits in two's complement (C itself leaves the
  overflow undefined). Line 143 passes the length to \<^verbatim>\<open>malloc\<close> as a size: the
  model gives the block \<open>nat (buf_len s)\<close> bytes, which is that size for a
  length that is not negative.
\<close>

definition int_mul :: "int \<Rightarrow> int \<Rightarrow> int" where
  "int_mul a b = sint (word_of_int (a * b) :: 32 word)"

definition reader_thread_start ::
  "bool \<Rightarrow> (nat \<Rightarrow> byte) option \<Rightarrow> int \<Rightarrow> int \<Rightarrow> int \<Rightarrow> int \<Rightarrow>
   reader_thread_state option \<times> effect list" where
  "reader_thread_start state_ok block create_rc bytes frames bufcount =
     (if \<not> state_ok then (None, [Set_reader_thread_error ''malloc failed (state)''])
      else
        (let s = \<lparr>buf = [], head_offset = 0, tail_offset = 0, period_frames = 0,
                  period_bytes = 0, buf_len = 0, stop = False, overrun = False,
                  error = False\<rparr>;
             s = s\<lparr>period_frames := frames\<rparr>;
             s = s\<lparr>period_bytes := bytes\<rparr>;
             s = s\<lparr>buf_len := int_mul bytes bufcount\<rparr>
         in (case block of
               None \<Rightarrow> (None, [Set_reader_thread_error ''malloc failed (buf)''])
             | Some g \<Rightarrow>
                 (let s = s\<lparr>buf := map g [0 ..< nat (buf_len s)]\<rparr>
                  in if create_rc \<noteq> 0
                     then (None, [Set_reader_thread_error ''pthread_create failed''])
                     else (Some s, [])))))"

text \<open>
  The parameters the construction is meant for: a positive period size, at
  least two slots, a buffer length that fits a C \<^verbatim>\<open>int\<close>.
\<close>

definition valid_params :: "int \<Rightarrow> int \<Rightarrow> bool" where
  "valid_params bytes bufcount \<longleftrightarrow> 0 < bytes \<and> 2 \<le> bufcount \<and> bytes * bufcount \<le> INT_MAX"

section \<open>The two threads together\<close>

text \<open>
  The capture thread and one consumer, interleaved at the points where the
  source takes or releases the mutex, blocks in the device or returns.
  \<open>P_Read ptr next_offset\<close>: inside \<^verbatim>\<open>snd_pcm_readi\<close> (line 66), with the two
  locals. \<open>P_Relock next_offset rc\<close>: the read has returned \<open>rc\<close>, the thread
  is at line 67. \<open>P_Top\<close>: at the test of the \<^verbatim>\<open>while\<close>, line 54.
  \<open>C_Lock\<close>: at line 100, or woken inside \<^verbatim>\<open>pthread_cond_wait\<close> and taking the
  mutex again. \<open>C_Test\<close>: at the test of line 101. \<open>C_Wait\<close>: asleep in
  \<^verbatim>\<open>pthread_cond_wait\<close>. \<open>C_Copy ret src\<close>: at line 119.
\<close>

datatype thread = Producer | Consumer

datatype producer_pc = P_Start | P_Top | P_Read int int | P_Relock int int | P_Exit

datatype consumer_pc =
    C_Idle
  | C_Lock "byte list"
  | C_Test "byte list"
  | C_Wait "byte list"
  | C_Copy int "int option" "byte list"

text \<open>
  \<open>mu\<close> is the owner of the mutex. \<open>returned\<close> lists the finished calls of
  \<^verbatim>\<open>reader_thread_poll\<close>: return value and destination. \<open>unread\<close> is not in the
  source: it is the history of the periods that the capture thread has
  published and that no call of poll has taken or discarded, oldest first.
\<close>

record system =
  st :: reader_thread_state
  mu :: "thread option"
  ppc :: producer_pc
  cpc :: consumer_pc
  effects :: "effect list"
  returned :: "(int \<times> byte list option) list"
  unread :: "byte list list"

definition boot :: "reader_thread_state \<Rightarrow> system" where
  "boot s = \<lparr>st = s, mu = None, ppc = P_Start, cpc = C_Idle, effects = [],
             returned = [], unread = []\<rparr>"

text \<open>The branch of \<open>loop_tail\<close> that advances \<^verbatim>\<open>head_offset\<close> (lines 79 to 82).\<close>

definition publishes :: "int \<Rightarrow> reader_thread_state \<Rightarrow> bool" where
  "publishes rc s \<longleftrightarrow> rc \<noteq> - EPIPE \<and> \<not> rc < 0 \<and> \<not> overrun s"

datatype event =
    Thread_lock
  | Loop_top
  | Device_read int "byte list"
  | Loop_tail
  | Poll_call "byte list option"
  | Poll_lock
  | Poll_test
  | Poll_wake
  | Poll_copy
  | Stop_request

text \<open>
  One step of one thread; \<open>None\<close> when the thread is not at that point, or
  the mutex it needs is taken. \<open>Thread_lock\<close> is line 53; \<open>Loop_top\<close> lines 54
  to 65, or 85 when \<^verbatim>\<open>stop\<close> is set; \<open>Device_read\<close> line 66; \<open>Loop_tail\<close> lines
  67 to 83; \<open>Poll_call\<close> lines 94 to 99; \<open>Poll_lock\<close> line 100; \<open>Poll_test\<close>
  lines 101 to 118; \<open>Poll_wake\<close> the return of the wait, by a signal or
  spuriously; \<open>Poll_copy\<close> lines 119 to 122; \<open>Stop_request\<close> line 169, which
  writes \<^verbatim>\<open>stop\<close> without the mutex.
\<close>

fun step :: "event \<Rightarrow> system \<Rightarrow> system option" where
  "step Thread_lock sys =
     (if ppc sys = P_Start \<and> mu sys = None
      then Some (sys\<lparr>mu := Some Producer, ppc := P_Top\<rparr>) else None)"
| "step Loop_top sys =
     (if ppc sys = P_Top then
        (if stop (st sys) then Some (sys\<lparr>mu := None, ppc := P_Exit\<rparr>)
         else (case loop_head (st sys) of (ptr, next_offset, s') \<Rightarrow>
                 Some (sys\<lparr>st := s', mu := None, ppc := P_Read ptr next_offset\<rparr>)))
      else None)"
| "step (Device_read rc d) sys =
     (case ppc sys of
        P_Read ptr next_offset \<Rightarrow>
          Some (sys\<lparr>st := device_read ptr d (st sys), ppc := P_Relock next_offset rc\<rparr>)
      | _ \<Rightarrow> None)"
| "step Loop_tail sys =
     (case ppc sys of
        P_Relock next_offset rc \<Rightarrow>
          (if mu sys = None then
             (case loop_tail next_offset rc (st sys) of (s', effs) \<Rightarrow>
                Some (sys\<lparr>st := s', mu := Some Producer, ppc := P_Top,
                          effects := effects sys @ effs,
                          unread := (if publishes rc (st sys)
                                     then unread sys @
                                          [slice_bytes (buf (st sys)) (head_offset (st sys))
                                             (period_bytes (st sys))]
                                     else unread sys)\<rparr>))
           else None)
      | _ \<Rightarrow> None)"
| "step (Poll_call dest) sys =
     (if cpc sys = C_Idle then
        (case dest of
           None \<Rightarrow> Some (sys\<lparr>effects := effects sys @ [Set_reader_thread_error ''null buffer''],
                             returned := returned sys @ [(- 1, None)]\<rparr>)
         | Some d \<Rightarrow> Some (sys\<lparr>cpc := C_Lock d\<rparr>))
      else None)"
| "step Poll_lock sys =
     (case cpc sys of
        C_Lock d \<Rightarrow>
          (if mu sys = None then Some (sys\<lparr>mu := Some Consumer, cpc := C_Test d\<rparr>) else None)
      | _ \<Rightarrow> None)"
| "step Poll_test sys =
     (case cpc sys of
        C_Test d \<Rightarrow>
          (if poll_wait (st sys) then Some (sys\<lparr>mu := None, cpc := C_Wait d\<rparr>)
           else (case poll_locked (st sys) of (ret, src, s') \<Rightarrow>
                   Some (sys\<lparr>st := s', mu := None, cpc := C_Copy ret src d,
                             unread := (if ret = 0 then tl (unread sys)
                                        else if ret = 1 then [] else unread sys)\<rparr>)))
      | _ \<Rightarrow> None)"
| "step Poll_wake sys =
     (case cpc sys of
        C_Wait d \<Rightarrow> Some (sys\<lparr>cpc := C_Lock d\<rparr>)
      | _ \<Rightarrow> None)"
| "step Poll_copy sys =
     (case cpc sys of
        C_Copy ret src d \<Rightarrow>
          Some (sys\<lparr>cpc := C_Idle,
                    returned := returned sys @ [(ret, Some (poll_copy ret src d (st sys)))]\<rparr>)
      | _ \<Rightarrow> None)"
| "step Stop_request sys = Some (sys\<lparr>st := (st sys)\<lparr>stop := True\<rparr>\<rparr>)"

fun run :: "event list \<Rightarrow> system \<Rightarrow> system option" where
  "run [] sys = Some sys"
| "run (e # es) sys = (case step e sys of None \<Rightarrow> None | Some sys' \<Rightarrow> run es sys')"


section \<open>Notions used to state the properties\<close>

text \<open>
  A state whose geometry is that of a buffer of at least two slots: the
  offsets are multiples of the period size inside the buffer, and the block
  has the length the struct records.
\<close>

definition wf_state :: "reader_thread_state \<Rightarrow> bool" where
  "wf_state s \<longleftrightarrow>
     0 < period_bytes s \<and> period_bytes s dvd buf_len s \<and> 2 * period_bytes s \<le> buf_len s
   \<and> buf_len s \<le> INT_MAX \<and> int (length (buf s)) = buf_len s
   \<and> 0 \<le> head_offset s \<and> head_offset s < buf_len s \<and> period_bytes s dvd head_offset s
   \<and> 0 \<le> tail_offset s \<and> tail_offset s < buf_len s \<and> period_bytes s dvd tail_offset s"

text \<open>
  The offset after \<open>t\<close>, as lines 56 to 60 compute it for the head and lines
  113 to 116 for the tail.
\<close>

definition next_slot :: "reader_thread_state \<Rightarrow> int \<Rightarrow> int" where
  "next_slot s t = (if t + period_bytes s \<ge> buf_len s then 0 else t + period_bytes s)"

text \<open>
  \<open>holds s t q\<close>: going from offset \<open>t\<close> slot by slot, the slots before the
  head hold the periods \<open>q\<close>, in this order. With \<open>t\<close> the tail, \<open>q\<close> is what
  the buffer has to give.
\<close>

fun holds :: "reader_thread_state \<Rightarrow> int \<Rightarrow> byte list list \<Rightarrow> bool" where
  "holds s t [] \<longleftrightarrow> t = head_offset s"
| "holds s t (x # xs) \<longleftrightarrow>
     t \<noteq> head_offset s \<and> slice_bytes (buf s) t (period_bytes s) = x \<and> holds s (next_slot s t) xs"

text \<open>The number of bytes from offset \<open>t\<close> forward to offset \<open>h\<close> in a ring of \<open>l\<close> bytes.\<close>

definition gap :: "int \<Rightarrow> int \<Rightarrow> int \<Rightarrow> int" where
  "gap l t h = (if t \<le> h then h - t else l - t + h)"

text \<open>
  The state after the device has written \<open>d\<close> into the slot at the head and
  line 82 has advanced the head; the state after lines 113 to 116 have
  advanced the tail.
\<close>

definition published :: "reader_thread_state \<Rightarrow> byte list \<Rightarrow> reader_thread_state" where
  "published s d = s\<lparr>buf := store_bytes (buf s) (head_offset s) d,
                     head_offset := next_slot s (head_offset s)\<rparr>"

definition taken :: "reader_thread_state \<Rightarrow> reader_thread_state" where
  "taken s = s\<lparr>tail_offset := next_slot s (tail_offset s)\<rparr>"

text \<open>A block that the allocator hands out with what an earlier owner left in it.\<close>

definition stale_block :: "nat \<Rightarrow> byte" where
  "stale_block i = 170"



definition err_inv :: "system \<Rightarrow> bool" where
  "err_inv sys \<longleftrightarrow>
     (error (st sys) \<longrightarrow> stop (st sys) \<and> (ppc sys = P_Top \<or> ppc sys = P_Exit))"

fun pc_ok :: "producer_pc \<Rightarrow> reader_thread_state \<Rightarrow> bool" where
  "pc_ok (P_Read ptr next_offset) s \<longleftrightarrow>
     ptr = head_offset s \<and> next_offset = next_slot s (head_offset s)
   \<and> (next_offset = tail_offset s \<longrightarrow> overrun s)"
| "pc_ok (P_Relock next_offset rc) s \<longleftrightarrow>
     next_offset = next_slot s (head_offset s)
   \<and> (next_offset = tail_offset s \<longrightarrow> overrun s)"
| "pc_ok _ s \<longleftrightarrow> True"

definition ring_inv :: "system \<Rightarrow> bool" where
  "ring_inv sys \<longleftrightarrow>
     wf_state (st sys)
   \<and> int (length (unread sys)) * period_bytes (st sys)
       = gap (buf_len (st sys)) (tail_offset (st sys)) (head_offset (st sys))
   \<and> pc_ok (ppc sys) (st sys)"

text \<open>
  A ring of four slots of two bytes, and courses of events on it: the capture
  thread publishes three periods (or two) and enters its next pass, where it
  waits in the device; one call of poll, from entry to return.
\<close>

definition ring4 :: reader_thread_state where
  "ring4 = \<lparr>buf = [0, 0, 0, 0, 0, 0, 0, 0], head_offset = 0, tail_offset = 0,
            period_frames = 1, period_bytes = 2, buf_len = 8, stop = False,
            overrun = False, error = False\<rparr>"

definition fill3 :: "event list" where
  "fill3 = [Thread_lock, Loop_top, Device_read 1 [1, 1], Loop_tail,
            Loop_top, Device_read 1 [2, 2], Loop_tail,
            Loop_top, Device_read 1 [3, 3], Loop_tail, Loop_top]"


definition one_poll :: "event list" where
  "one_poll = [Poll_call (Some [0, 0]), Poll_lock, Poll_test, Poll_copy]"

section \<open>Memory and offsets\<close>

lemma int_mul_in_range:
  assumes "- 2147483648 \<le> a * b" "a * b \<le> 2147483647"
  shows "int_mul a b = a * b"
proof -
  from assms have "- (2 ^ 31) \<le> a * b" "a * b < 2 ^ 31" by simp_all
  then have "signed_take_bit 31 (a * b) = a * b"
    by (rule signed_take_bit_int_eq_self)
  moreover have "sint (word_of_int (a * b) :: 32 word) = signed_take_bit (LENGTH(32) - 1) (a * b)"
    by (rule sint_sbintrunc')
  ultimately show ?thesis unfolding int_mul_def by simp
qed

lemma aligned_room:
  fixes p :: int
  assumes "0 < p" "p dvd l" "p dvd x" "x < l"
  shows "x + p \<le> l"
proof -
  from assms have "p dvd (l - x)" by (simp add: dvd_diff)
  moreover from assms have "0 < l - x" by simp
  ultimately have "p \<le> l - x" by (rule zdvd_imp_le)
  then show ?thesis by simp
qed

lemma aligned_apart:
  fixes p :: int
  assumes "0 < p" "p dvd x" "p dvd y" "x \<noteq> y"
  shows "x + p \<le> y \<or> y + p \<le> x"
proof (cases "x < y")
  case True
  with assms have "x + p \<le> y" by (intro aligned_room) auto
  then show ?thesis ..
next
  case False
  with assms have "y < x" by simp
  with assms have "y + p \<le> x" by (intro aligned_room) auto
  then show ?thesis ..
qed

lemma length_store_bytes [simp]: "length (store_bytes m off d) = length m"
  by (auto simp add: store_bytes_def)



lemma length_slice:
  "0 \<le> off \<Longrightarrow> 0 \<le> n \<Longrightarrow> off + n \<le> int (length m) \<Longrightarrow> length (slice_bytes m off n) = nat n"
  by (simp add: slice_bytes_def)

lemma next_slot_range:
  assumes "0 < p" "p dvd l" "p dvd t" "0 \<le> t" "t < l" "period_bytes s = p" "buf_len s = l"
  shows "0 \<le> next_slot s t \<and> next_slot s t < l \<and> p dvd next_slot s t
       \<and> (next_slot s t = 0 \<and> t + p = l \<or> next_slot s t = t + p \<and> t + p < l)"
proof -
  from assms have "t + p \<le> l" by (intro aligned_room) auto
  with assms show ?thesis by (auto simp add: next_slot_def)
qed


section \<open>Publishing and taking, one period at a time\<close>

lemma next_slot_published [simp]: "next_slot (published s d) t = next_slot s t"
  by (simp add: next_slot_def published_def)

lemma published_fields [simp]:
  "buf (published s d) = store_bytes (buf s) (head_offset s) d"
  "head_offset (published s d) = next_slot s (head_offset s)"
  "tail_offset (published s d) = tail_offset s"
  "period_bytes (published s d) = period_bytes s"
  "buf_len (published s d) = buf_len s"
  "stop (published s d) = stop s"
  "overrun (published s d) = overrun s"
  "error (published s d) = error s"
  by (simp_all add: published_def)





lemma taken_fields [simp]:
  "buf (taken s) = buf s"
  "head_offset (taken s) = head_offset s"
  "tail_offset (taken s) = next_slot s (tail_offset s)"
  "period_bytes (taken s) = period_bytes s"
  "buf_len (taken s) = buf_len s"
  "stop (taken s) = stop s"
  "overrun (taken s) = overrun s"
  "error (taken s) = error s"
  by (simp_all add: taken_def)

lemma next_slot_taken [simp]: "next_slot (taken s) t = next_slot s t"
  by (simp add: next_slot_def)

lemma holds_taken [simp]: "holds (taken s) t q = holds s t q"
  by (induction q arbitrary: t) simp_all

lemma wf_taken:
  assumes "wf_state s"
  shows "wf_state (taken s)"
proof -
  let ?p = "period_bytes s" and ?l = "buf_len s" and ?t = "tail_offset s"
  have "0 \<le> next_slot s ?t \<and> next_slot s ?t < ?l \<and> ?p dvd next_slot s ?t
       \<and> (next_slot s ?t = 0 \<and> ?t + ?p = ?l \<or> next_slot s ?t = ?t + ?p \<and> ?t + ?p < ?l)"
    using assms by (intro next_slot_range) (auto simp add: wf_state_def)
  with assms show ?thesis by (simp add: wf_state_def)
qed





lemma start_wf:
  assumes vp: "valid_params bytes bufcount"
    and st: "reader_thread_start state_ok block create_rc bytes frames bufcount = (Some s, effs)"
  shows "wf_state s \<and> head_offset s = 0 \<and> tail_offset s = 0
       \<and> \<not> stop s \<and> \<not> overrun s \<and> \<not> error s
       \<and> period_bytes s = bytes \<and> buf_len s = bytes * bufcount"
proof -
  from vp have pos: "0 < bytes" and two: "2 \<le> bufcount" and top: "bytes * bufcount \<le> INT_MAX"
    by (simp_all add: valid_params_def)
  from pos two have "bytes * 2 \<le> bytes * bufcount" by (intro mult_left_mono) auto
  then have big: "2 * bytes \<le> bytes * bufcount" by simp
  from pos big have "0 \<le> bytes * bufcount" by linarith
  with top have "int_mul bytes bufcount = bytes * bufcount"
    by (intro int_mul_in_range) (simp_all add: INT_MAX_def)
  with st have f: "head_offset s = 0" "tail_offset s = 0" "\<not> stop s" "\<not> overrun s" "\<not> error s"
    "period_bytes s = bytes" "buf_len s = bytes * bufcount"
    "length (buf s) = nat (bytes * bufcount)"
    by (auto simp add: reader_thread_start_def Let_def split: if_splits option.splits)
  with pos big top show ?thesis by (simp add: wf_state_def)
qed

lemma device_read_fields [simp]:
  "buf (device_read ptr d s) = store_bytes (buf s) ptr d"
  "head_offset (device_read ptr d s) = head_offset s"
  "tail_offset (device_read ptr d s) = tail_offset s"
  "period_bytes (device_read ptr d s) = period_bytes s"
  "buf_len (device_read ptr d s) = buf_len s"
  "stop (device_read ptr d s) = stop s"
  "overrun (device_read ptr d s) = overrun s"
  "error (device_read ptr d s) = error s"
  by (simp_all add: device_read_def)

lemma next_slot_device_read [simp]: "next_slot (device_read ptr d s) t = next_slot s t"
  by (simp add: next_slot_def)


lemma wf_device_read:
  "wf_state s \<Longrightarrow> wf_state (device_read ptr d s)"
  by (simp add: wf_state_def)




section \<open>The mutex\<close>




section \<open>The error flag\<close>

lemma loop_head_flags:
  "loop_head s = (ptr, next_offset, s') \<Longrightarrow>
     error s' = error s \<and> stop s' = stop s
   \<and> head_offset s' = head_offset s \<and> tail_offset s' = tail_offset s"
  by (auto simp add: loop_head_def Let_def split: if_splits)

lemma poll_locked_flags:
  "poll_locked s = (ret, src, s') \<Longrightarrow> error s' = error s \<and> stop s' = stop s"
  by (auto simp add: poll_locked_def Let_def split: if_splits)

lemma poll_locked_error:
  "error s \<Longrightarrow> poll_locked s = (- 1, None, s)"
  by (simp add: poll_locked_def)

lemma loop_tail_flags:
  "loop_tail next_offset rc s = (s', effs) \<Longrightarrow>
     (error s' \<longrightarrow> stop s') \<or> (error s' = error s \<and> stop s' = stop s)"
  by (auto simp add: loop_tail_def split: if_splits)

lemma step_err_inv:
  assumes "step e sys = Some sys'" and "err_inv sys"
  shows "err_inv sys'"
proof (cases e)
  case Thread_lock
  with assms show ?thesis by (auto simp add: err_inv_def split: if_splits)
next
  case Loop_top
  with assms show ?thesis
    by (auto simp add: err_inv_def split: if_splits prod.splits dest: loop_head_flags)
next
  case (Device_read rc d)
  with assms show ?thesis
    by (auto simp add: err_inv_def device_read_def split: producer_pc.splits)
next
  case Loop_tail
  with assms show ?thesis
    by (auto simp add: err_inv_def split: producer_pc.splits if_splits prod.splits
        dest: loop_tail_flags)
next
  case (Poll_call dest)
  with assms show ?thesis
    by (auto simp add: err_inv_def split: if_splits option.splits)
next
  case Poll_lock
  with assms show ?thesis
    by (auto simp add: err_inv_def split: consumer_pc.splits if_splits)
next
  case Poll_test
  with assms show ?thesis
    by (auto simp add: err_inv_def split: consumer_pc.splits if_splits prod.splits
        dest: poll_locked_flags)
next
  case Poll_wake
  with assms show ?thesis
    by (auto simp add: err_inv_def split: consumer_pc.splits)
next
  case Poll_copy
  with assms show ?thesis
    by (auto simp add: err_inv_def split: consumer_pc.splits)
next
  case Stop_request
  with assms show ?thesis by (auto simp add: err_inv_def)
qed

lemma step_after_error:
  assumes "step e sys = Some sys'" and "err_inv sys" and "error (st sys)"
  shows "error (st sys') \<and> head_offset (st sys') = head_offset (st sys)
       \<and> tail_offset (st sys') = tail_offset (st sys)"
proof (cases e)
  case Thread_lock
  with assms show ?thesis by (auto split: if_splits)
next
  case Loop_top
  with assms show ?thesis
    by (auto simp add: err_inv_def split: if_splits prod.splits)
next
  case (Device_read rc d)
  with assms show ?thesis
    by (auto simp add: err_inv_def split: producer_pc.splits)
next
  case Loop_tail
  with assms show ?thesis
    by (auto simp add: err_inv_def split: producer_pc.splits)
next
  case (Poll_call dest)
  with assms show ?thesis by (auto split: if_splits option.splits)
next
  case Poll_lock
  with assms show ?thesis by (auto split: consumer_pc.splits if_splits)
next
  case Poll_test
  with assms show ?thesis
    by (auto simp add: poll_locked_error split: consumer_pc.splits if_splits)
next
  case Poll_wake
  with assms show ?thesis by (auto split: consumer_pc.splits)
next
  case Poll_copy
  with assms show ?thesis by (auto split: consumer_pc.splits)
next
  case Stop_request
  with assms show ?thesis by auto
qed

lemma run_err_inv:
  "run evs sys = Some sys' \<Longrightarrow> err_inv sys \<Longrightarrow> err_inv sys'"
proof (induction evs arbitrary: sys)
  case Nil
  then show ?case by simp
next
  case (Cons e evs)
  then obtain sys1 where "step e sys = Some sys1" and "run evs sys1 = Some sys'"
    by (auto split: option.splits)
  with Cons show ?case by (blast intro: step_err_inv)
qed

lemma run_after_error:
  "run evs sys = Some sys' \<Longrightarrow> err_inv sys \<Longrightarrow> error (st sys) \<Longrightarrow>
   error (st sys') \<and> head_offset (st sys') = head_offset (st sys)
   \<and> tail_offset (st sys') = tail_offset (st sys)"
proof (induction evs arbitrary: sys)
  case Nil
  then show ?case by simp
next
  case (Cons e evs)
  then obtain sys1 where s1: "step e sys = Some sys1" and r: "run evs sys1 = Some sys'"
    by (auto split: option.splits)
  from s1 Cons.prems have e1: "err_inv sys1" by (blast intro: step_err_inv)
  from step_after_error [OF s1 Cons.prems(2) Cons.prems(3)]
  have k: "error (st sys1)" "head_offset (st sys1) = head_offset (st sys)"
    "tail_offset (st sys1) = tail_offset (st sys)" by simp_all
  from Cons.IH [OF r e1 k(1)] k show ?case by simp
qed

section \<open>The ring of offsets\<close>

lemma loop_head_eq:
  "loop_head s = (head_offset s, next_slot s (head_offset s),
                  if next_slot s (head_offset s) = tail_offset s then s\<lparr>overrun := True\<rparr> else s)"
  by (simp add: loop_head_def next_slot_def Let_def)

lemma loop_tail_publishes:
  "publishes rc s \<Longrightarrow> fst (loop_tail next_offset rc s) = s\<lparr>head_offset := next_offset\<rparr>"
  by (simp add: loop_tail_def publishes_def)

lemma loop_tail_keeps:
  "\<not> publishes rc s \<Longrightarrow>
     head_offset (fst (loop_tail next_offset rc s)) = head_offset s
   \<and> tail_offset (fst (loop_tail next_offset rc s)) = tail_offset s
   \<and> period_bytes (fst (loop_tail next_offset rc s)) = period_bytes s
   \<and> buf_len (fst (loop_tail next_offset rc s)) = buf_len s
   \<and> buf (fst (loop_tail next_offset rc s)) = buf s"
  by (auto simp add: loop_tail_def publishes_def)

lemma poll_locked_cases:
  "poll_locked s =
     (if error s then (- 1, None, s)
      else if overrun s then (1, None, s\<lparr>overrun := False, tail_offset := head_offset s\<rparr>)
      else (0, Some (tail_offset s), taken s))"
  by (simp add: poll_locked_def taken_def next_slot_def Let_def)

lemma wf_state_cong:
  assumes "period_bytes s' = period_bytes s" "buf_len s' = buf_len s"
    "length (buf s') = length (buf s)" "head_offset s' = head_offset s"
    "tail_offset s' = tail_offset s"
  shows "wf_state s' = wf_state s"
  using assms by (simp add: wf_state_def)

lemma wf_head_advance:
  assumes "wf_state s"
  shows "wf_state (s\<lparr>head_offset := next_slot s (head_offset s)\<rparr>)"
proof -
  let ?p = "period_bytes s" and ?l = "buf_len s" and ?h = "head_offset s"
  have "0 \<le> next_slot s ?h \<and> next_slot s ?h < ?l \<and> ?p dvd next_slot s ?h
       \<and> (next_slot s ?h = 0 \<and> ?h + ?p = ?l \<or> next_slot s ?h = ?h + ?p \<and> ?h + ?p < ?l)"
    using assms by (intro next_slot_range) (auto simp add: wf_state_def)
  with assms show ?thesis by (simp add: wf_state_def)
qed

lemma gap_head_advance:
  assumes wf: "wf_state s" and ne: "next_slot s (head_offset s) \<noteq> tail_offset s"
  shows "gap (buf_len s) (tail_offset s) (next_slot s (head_offset s))
       = gap (buf_len s) (tail_offset s) (head_offset s) + period_bytes s"
proof -
  let ?p = "period_bytes s" and ?l = "buf_len s" and ?h = "head_offset s" and ?t = "tail_offset s"
  have ns: "0 \<le> next_slot s ?h \<and> next_slot s ?h < ?l \<and> ?p dvd next_slot s ?h
       \<and> (next_slot s ?h = 0 \<and> ?h + ?p = ?l \<or> next_slot s ?h = ?h + ?p \<and> ?h + ?p < ?l)"
    using wf by (intro next_slot_range) (auto simp add: wf_state_def)
  have apart: "?h = ?t \<or> ?h + ?p \<le> ?t \<or> ?t + ?p \<le> ?h"
    using wf aligned_apart [of ?p ?h ?t] by (auto simp add: wf_state_def)
  from wf have rng: "0 \<le> ?t" "?t < ?l" "0 \<le> ?h" "?h < ?l" "0 < ?p"
    by (simp_all add: wf_state_def)
  from ns ne apart rng show ?thesis by (auto simp add: gap_def)
qed

lemma gap_tail_advance:
  assumes wf: "wf_state s" and ne: "head_offset s \<noteq> tail_offset s"
  shows "gap (buf_len s) (next_slot s (tail_offset s)) (head_offset s)
       = gap (buf_len s) (tail_offset s) (head_offset s) - period_bytes s"
proof -
  let ?p = "period_bytes s" and ?l = "buf_len s" and ?h = "head_offset s" and ?t = "tail_offset s"
  have ns: "0 \<le> next_slot s ?t \<and> next_slot s ?t < ?l \<and> ?p dvd next_slot s ?t
       \<and> (next_slot s ?t = 0 \<and> ?t + ?p = ?l \<or> next_slot s ?t = ?t + ?p \<and> ?t + ?p < ?l)"
    using wf by (intro next_slot_range) (auto simp add: wf_state_def)
  have apart: "?h + ?p \<le> ?t \<or> ?t + ?p \<le> ?h"
    using wf ne aligned_apart [of ?p ?h ?t] by (auto simp add: wf_state_def)
  from wf have rng: "0 \<le> ?t" "?t < ?l" "0 \<le> ?h" "?h < ?l" "0 < ?p"
    by (simp_all add: wf_state_def)
  from ns apart rng show ?thesis by (auto simp add: gap_def)
qed

lemma next_slot_inj:
  assumes wf: "wf_state s" and ne: "head_offset s \<noteq> tail_offset s"
  shows "next_slot s (head_offset s) \<noteq> next_slot s (tail_offset s)"
proof -
  let ?p = "period_bytes s" and ?l = "buf_len s" and ?h = "head_offset s" and ?t = "tail_offset s"
  have nt: "next_slot s ?t = 0 \<and> ?t + ?p = ?l \<or> next_slot s ?t = ?t + ?p \<and> ?t + ?p < ?l"
    using wf next_slot_range [of ?p ?l ?t s] by (auto simp add: wf_state_def)
  have nh: "next_slot s ?h = 0 \<and> ?h + ?p = ?l \<or> next_slot s ?h = ?h + ?p \<and> ?h + ?p < ?l"
    using wf next_slot_range [of ?p ?l ?h s] by (auto simp add: wf_state_def)
  from wf have rng: "0 \<le> ?t" "0 \<le> ?h" "0 < ?p" by (simp_all add: wf_state_def)
  from nt nh ne rng show ?thesis by auto
qed

lemma next_slot_moves:
  assumes wf: "wf_state s"
  shows "next_slot s (head_offset s) \<noteq> head_offset s"
proof -
  let ?p = "period_bytes s" and ?l = "buf_len s" and ?h = "head_offset s"
  have nh: "next_slot s ?h = 0 \<and> ?h + ?p = ?l \<or> next_slot s ?h = ?h + ?p \<and> ?h + ?p < ?l"
    using wf next_slot_range [of ?p ?l ?h s] by (auto simp add: wf_state_def)
  from wf have "0 < ?p" "2 * ?p \<le> ?l" by (simp_all add: wf_state_def)
  with nh show ?thesis by auto
qed

lemma gap_zero_iff:
  assumes "wf_state s"
  shows "gap (buf_len s) (tail_offset s) (head_offset s) = 0 \<longleftrightarrow> head_offset s = tail_offset s"
  using assms by (auto simp add: gap_def wf_state_def)

lemma gap_bound:
  assumes wf: "wf_state s"
  shows "gap (buf_len s) (tail_offset s) (head_offset s) \<le> buf_len s - period_bytes s"
proof -
  let ?p = "period_bytes s" and ?l = "buf_len s" and ?h = "head_offset s" and ?t = "tail_offset s"
  let ?g = "gap ?l ?t ?h"
  from wf have d: "?p dvd ?g" by (auto simp add: gap_def wf_state_def)
  from wf have "?g < ?l" by (auto simp add: gap_def wf_state_def)
  with wf d have "?g + ?p \<le> ?l" by (intro aligned_room) (auto simp add: wf_state_def)
  then show ?thesis by simp
qed

lemma next_slot_flags [simp]:
  "next_slot (s\<lparr>overrun := b\<rparr>) t = next_slot s t"
  "next_slot (s\<lparr>stop := b\<rparr>) t = next_slot s t"
  "next_slot (s\<lparr>head_offset := h\<rparr>) t = next_slot s t"
  "next_slot (s\<lparr>tail_offset := h\<rparr>) t = next_slot s t"
  by (simp_all add: next_slot_def)

lemma ring_inv_loop_top:
  assumes "step Loop_top sys = Some sys'" and inv: "ring_inv sys"
  shows "ring_inv sys'"
proof (cases "ppc sys = P_Top \<and> \<not> stop (st sys)")
  case True
  let ?s = "st sys"
  let ?s' = "if next_slot ?s (head_offset ?s) = tail_offset ?s then ?s\<lparr>overrun := True\<rparr> else ?s"
  from True assms(1) have sys': "sys' = sys\<lparr>st := ?s', mu := None,
      ppc := P_Read (head_offset ?s) (next_slot ?s (head_offset ?s))\<rparr>"
    by (simp add: loop_head_eq)
  have wf: "wf_state ?s'" using inv by (simp add: ring_inv_def wf_state_def)
  have g: "int (length (unread sys)) * period_bytes ?s'
      = gap (buf_len ?s') (tail_offset ?s') (head_offset ?s')"
    using inv by (simp add: ring_inv_def)
  have pc: "pc_ok (P_Read (head_offset ?s) (next_slot ?s (head_offset ?s))) ?s'" by simp
  from wf g pc show ?thesis unfolding sys' ring_inv_def by simp
next
  case False
  with assms show ?thesis by (auto simp add: ring_inv_def split: if_splits)
qed

lemma ring_inv_device_read:
  assumes "step (Device_read rc d) sys = Some sys'" and inv: "ring_inv sys"
  shows "ring_inv sys'"
proof -
  from assms(1) obtain ptr nxt where pc: "ppc sys = P_Read ptr nxt"
    and sys': "sys' = sys\<lparr>st := device_read ptr d (st sys), ppc := P_Relock nxt rc\<rparr>"
    by (auto split: producer_pc.splits)
  from inv have "wf_state (device_read ptr d (st sys))"
    by (simp add: ring_inv_def wf_device_read)
  moreover from inv pc have "pc_ok (P_Relock nxt rc) (device_read ptr d (st sys))"
    by (simp add: ring_inv_def)
  ultimately show ?thesis using inv unfolding sys' ring_inv_def by simp
qed

lemma ring_inv_loop_tail:
  assumes "step Loop_tail sys = Some sys'" and inv: "ring_inv sys"
  shows "ring_inv sys'"
proof -
  let ?s = "st sys"
  from assms(1) obtain nxt rc where pc: "ppc sys = P_Relock nxt rc"
    by (auto split: producer_pc.splits)
  with assms(1) have sys': "sys' = sys\<lparr>st := fst (loop_tail nxt rc ?s), mu := Some Producer,
      ppc := P_Top, effects := effects sys @ snd (loop_tail nxt rc ?s),
      unread := (if publishes rc ?s
                 then unread sys @ [slice_bytes (buf ?s) (head_offset ?s) (period_bytes ?s)]
                 else unread sys)\<rparr>"
    by (auto split: if_splits prod.splits)
  from inv pc have nx: "nxt = next_slot ?s (head_offset ?s)"
    and ov: "nxt = tail_offset ?s \<longrightarrow> overrun ?s" and wf: "wf_state ?s"
    and g: "int (length (unread sys)) * period_bytes ?s
        = gap (buf_len ?s) (tail_offset ?s) (head_offset ?s)"
    by (simp_all add: ring_inv_def)
  show ?thesis
  proof (cases "publishes rc ?s")
    case True
    then have st': "fst (loop_tail nxt rc ?s) = ?s\<lparr>head_offset := next_slot ?s (head_offset ?s)\<rparr>"
      using nx by (simp add: loop_tail_publishes)
    from True ov nx have ne: "next_slot ?s (head_offset ?s) \<noteq> tail_offset ?s"
      by (auto simp add: publishes_def)
    from wf have wf': "wf_state (?s\<lparr>head_offset := next_slot ?s (head_offset ?s)\<rparr>)"
      by (rule wf_head_advance)
    from gap_head_advance [OF wf ne] g
    have "int (length (unread sys @ [slice_bytes (buf ?s) (head_offset ?s) (period_bytes ?s)]))
          * period_bytes ?s
        = gap (buf_len ?s) (tail_offset ?s) (next_slot ?s (head_offset ?s))"
      by (simp add: algebra_simps)
    with wf' True show ?thesis unfolding sys' ring_inv_def st' by simp
  next
    case False
    from loop_tail_keeps [OF False, of nxt]
    have k: "head_offset (fst (loop_tail nxt rc ?s)) = head_offset ?s"
      "tail_offset (fst (loop_tail nxt rc ?s)) = tail_offset ?s"
      "period_bytes (fst (loop_tail nxt rc ?s)) = period_bytes ?s"
      "buf_len (fst (loop_tail nxt rc ?s)) = buf_len ?s"
      "buf (fst (loop_tail nxt rc ?s)) = buf ?s" by simp_all
    then have "wf_state (fst (loop_tail nxt rc ?s)) = wf_state ?s"
      by (intro wf_state_cong) simp_all
    with wf g k False show ?thesis unfolding sys' ring_inv_def by simp
  qed
qed

lemma pc_ok_resync:
  assumes "wf_state s" and "pc_ok pc s"
  shows "pc_ok pc (s\<lparr>overrun := False, tail_offset := head_offset s\<rparr>)"
  using assms next_slot_moves [of s] by (cases pc) auto

lemma pc_ok_taken:
  assumes "wf_state s" and "pc_ok pc s" and "head_offset s \<noteq> tail_offset s" and "\<not> overrun s"
  shows "pc_ok pc (taken s)"
  using assms next_slot_inj [of s] by (cases pc) auto

lemma ring_inv_poll_test:
  assumes "step Poll_test sys = Some sys'" and inv: "ring_inv sys"
  shows "ring_inv sys'"
proof -
  let ?s = "st sys"
  from assms(1) obtain d where cp: "cpc sys = C_Test d"
    by (auto split: consumer_pc.splits)
  from inv have wf: "wf_state ?s" and pc: "pc_ok (ppc sys) ?s"
    and g: "int (length (unread sys)) * period_bytes ?s
        = gap (buf_len ?s) (tail_offset ?s) (head_offset ?s)"
    by (simp_all add: ring_inv_def)
  consider (wait) "poll_wait ?s" | (err) "\<not> poll_wait ?s" "error ?s"
    | (over) "\<not> poll_wait ?s" "\<not> error ?s" "overrun ?s"
    | (ok) "\<not> poll_wait ?s" "\<not> error ?s" "\<not> overrun ?s"
    by blast
  then show ?thesis
  proof cases
    case wait
    with assms(1) cp have "sys' = sys\<lparr>mu := None, cpc := C_Wait d\<rparr>" by simp
    with inv show ?thesis by (simp add: ring_inv_def)
  next
    case err
    with assms(1) cp have "st sys' = ?s \<and> unread sys' = unread sys \<and> ppc sys' = ppc sys"
      by (auto simp add: poll_locked_cases)
    with inv show ?thesis by (simp add: ring_inv_def)
  next
    case over
    let ?s1 = "?s\<lparr>overrun := False, tail_offset := head_offset ?s\<rparr>"
    from over assms(1) cp have sys': "sys' = sys\<lparr>st := ?s1, mu := None,
        cpc := C_Copy 1 None d, unread := []\<rparr>"
      by (simp add: poll_locked_cases)
    from wf have "wf_state ?s1" by (simp add: wf_state_def)
    moreover have "gap (buf_len ?s1) (tail_offset ?s1) (head_offset ?s1) = 0"
      by (simp add: gap_def)
    moreover from wf pc have "pc_ok (ppc sys) ?s1" by (rule pc_ok_resync)
    ultimately show ?thesis unfolding sys' ring_inv_def by simp
  next
    case ok
    from ok assms(1) cp have sys': "sys' = sys\<lparr>st := taken ?s, mu := None,
        cpc := C_Copy 0 (Some (tail_offset ?s)) d, unread := tl (unread sys)\<rparr>"
      by (simp add: poll_locked_cases)
    from ok have ne: "head_offset ?s \<noteq> tail_offset ?s" by (simp add: poll_wait_def)
    with wf have "gap (buf_len ?s) (tail_offset ?s) (head_offset ?s) \<noteq> 0"
      by (simp add: gap_zero_iff)
    with g have "unread sys \<noteq> []" by auto
    then have "int (length (tl (unread sys))) = int (length (unread sys)) - 1"
      by (cases "unread sys") simp_all
    with g gap_tail_advance [OF wf ne]
    have "int (length (tl (unread sys))) * period_bytes ?s
        = gap (buf_len ?s) (next_slot ?s (tail_offset ?s)) (head_offset ?s)"
      by (simp add: algebra_simps)
    moreover from wf have "wf_state (taken ?s)" by (rule wf_taken)
    moreover from wf pc ne ok(3) have "pc_ok (ppc sys) (taken ?s)" by (rule pc_ok_taken)
    ultimately show ?thesis unfolding sys' ring_inv_def by simp
  qed
qed

lemma pc_ok_stop:
  "pc_ok pc (s\<lparr>stop := True\<rparr>) = pc_ok pc s"
  by (cases pc) simp_all

lemma step_ring_inv:
  assumes "step e sys = Some sys'" and "ring_inv sys"
  shows "ring_inv sys'"
proof (cases e)
  case Thread_lock
  with assms show ?thesis by (auto simp add: ring_inv_def split: if_splits)
next
  case Loop_top
  with assms show ?thesis by (simp add: ring_inv_loop_top)
next
  case (Device_read rc d)
  with assms show ?thesis by (simp add: ring_inv_device_read)
next
  case Loop_tail
  with assms show ?thesis by (simp add: ring_inv_loop_tail)
next
  case (Poll_call dest)
  with assms show ?thesis
    by (auto simp add: ring_inv_def split: if_splits option.splits)
next
  case Poll_lock
  with assms show ?thesis
    by (auto simp add: ring_inv_def split: consumer_pc.splits if_splits)
next
  case Poll_test
  with assms show ?thesis by (simp add: ring_inv_poll_test)
next
  case Poll_wake
  with assms show ?thesis
    by (auto simp add: ring_inv_def split: consumer_pc.splits)
next
  case Poll_copy
  with assms show ?thesis
    by (auto simp add: ring_inv_def split: consumer_pc.splits)
next
  case Stop_request
  with assms show ?thesis
    by (auto simp add: ring_inv_def wf_state_def pc_ok_stop)
qed

lemma run_ring_inv:
  "run evs sys = Some sys' \<Longrightarrow> ring_inv sys \<Longrightarrow> ring_inv sys'"
proof (induction evs arbitrary: sys)
  case Nil
  then show ?case by simp
next
  case (Cons e evs)
  then obtain sys1 where "step e sys = Some sys1" and "run evs sys1 = Some sys'"
    by (auto split: option.splits)
  with Cons show ?case by (blast intro: step_ring_inv)
qed

lemma step_geometry:
  assumes "step e sys = Some sys'"
  shows "period_bytes (st sys') = period_bytes (st sys) \<and> buf_len (st sys') = buf_len (st sys)"
proof (cases e)
  case Loop_top
  with assms show ?thesis by (auto simp add: loop_head_eq split: if_splits)
next
  case Loop_tail
  with assms show ?thesis
    by (auto simp add: loop_tail_def split: producer_pc.splits if_splits)
next
  case Poll_test
  with assms show ?thesis
    by (auto simp add: poll_locked_cases split: consumer_pc.splits if_splits)
next
  case (Device_read rc d)
  with assms show ?thesis by (auto split: producer_pc.splits)
qed (use assms in \<open>auto split: if_splits option.splits consumer_pc.splits\<close>)

lemma run_geometry:
  "run evs sys = Some sys' \<Longrightarrow>
   period_bytes (st sys') = period_bytes (st sys) \<and> buf_len (st sys') = buf_len (st sys)"
proof (induction evs arbitrary: sys)
  case Nil
  then show ?case by simp
next
  case (Cons e evs)
  then obtain sys1 where s1: "step e sys = Some sys1" and r: "run evs sys1 = Some sys'"
    by (auto split: option.splits)
  from step_geometry [OF s1] Cons.IH [OF r] show ?case by simp
qed

section \<open>The producer's step\<close>

text \<open>
  C3, as the code has it. In an iteration of the capture loop the next offset
  is the head plus one period, wrapped to 0 when it reaches the buffer
  length, and when that offset is the tail the overrun flag is set before the
  device is read. After the read, whatever it returned, a state in which
  the flag is still set keeps its head and its tail; so with nothing running
  during the read the data just read lie in the slot at the head,
  unpublished. A poll that runs during the read clears the flag, and a read
  that then succeeds advances the head to the next offset.
\<close>

theorem producer_drops_while_overrun_set:
  "loop_head s = (ptr, next_offset, s1) \<Longrightarrow>
     ptr = head_offset s
   \<and> next_offset = (if head_offset s + period_bytes s \<ge> buf_len s then 0
                    else head_offset s + period_bytes s)
   \<and> (next_offset = tail_offset s \<longrightarrow> overrun s1)
   \<and> (overrun s2 \<longrightarrow>
        overrun (fst (loop_tail next_offset rc s2))
      \<and> head_offset (fst (loop_tail next_offset rc s2)) = head_offset s2
      \<and> tail_offset (fst (loop_tail next_offset rc s2)) = tail_offset s2
      \<and> buf (fst (loop_tail next_offset rc s2)) = buf s2)
   \<and> (next_offset = tail_offset s \<longrightarrow>
        overrun (fst (loop_body r s))
      \<and> head_offset (fst (loop_body r s)) = head_offset s
      \<and> tail_offset (fst (loop_body r s)) = tail_offset s
      \<and> buf (fst (loop_body r s)) = store_bytes (buf s) (head_offset s) (snd r))
   \<and> (overrun s2 \<and> \<not> error s2 \<and> 0 \<le> rc \<longrightarrow>
        fst (poll_locked s2) = 1
      \<and> head_offset (fst (loop_tail next_offset rc (snd (snd (poll_locked s2))))) = next_offset)"
  by (auto simp add: loop_body_def loop_head_def loop_tail_def device_read_def poll_locked_def
      EPIPE_def Let_def)

theorem producer_drops_while_overrun_set_witness:
  "loop_head \<lparr>buf = [1, 2, 3, 4], head_offset = 0, tail_offset = 2, period_frames = 1,
              period_bytes = 2, buf_len = 4, stop = False, overrun = False, error = False\<rparr>
     = (0, 2, \<lparr>buf = [1, 2, 3, 4], head_offset = 0, tail_offset = 2, period_frames = 1,
              period_bytes = 2, buf_len = 4, stop = False, overrun = True, error = False\<rparr>)
   \<and> head_offset (fst (loop_tail 2 1
          \<lparr>buf = [9, 9, 3, 4], head_offset = 0, tail_offset = 2, period_frames = 1,
           period_bytes = 2, buf_len = 4, stop = False, overrun = True, error = False\<rparr>)) = 0
   \<and> buf (fst (loop_body (1, [9, 9])
          \<lparr>buf = [1, 2, 3, 4], head_offset = 0, tail_offset = 2, period_frames = 1,
           period_bytes = 2, buf_len = 4, stop = False, overrun = False, error = False\<rparr>))
     = [9, 9, 3, 4]
   \<and> head_offset (fst (loop_tail 2 1 (snd (snd (poll_locked
          \<lparr>buf = [9, 9, 3, 4], head_offset = 0, tail_offset = 2, period_frames = 1,
           period_bytes = 2, buf_len = 4, stop = False, overrun = True, error = False\<rparr>))))) = 2"
proof -
  let ?s = "\<lparr>buf = [1, 2, 3, 4 :: byte], head_offset = 0, tail_offset = 2, period_frames = 1,
              period_bytes = 2, buf_len = 4, stop = False, overrun = False, error = False\<rparr>"
  let ?s2 = "\<lparr>buf = [9, 9, 3, 4 :: byte], head_offset = 0, tail_offset = 2, period_frames = 1,
              period_bytes = 2, buf_len = 4, stop = False, overrun = True, error = False\<rparr>"
  have h: "loop_head ?s = (0, 2, ?s\<lparr>overrun := True\<rparr>)"
    by (simp add: loop_head_def Let_def)
  from producer_drops_while_overrun_set [OF h, of ?s2 1 "(1, [9, 9])"] h
  show ?thesis by (simp add: store_bytes_def)
qed

text \<open>
  C3, as the specification words it, fails when a poll runs during the read.
  On four slots of two bytes, after three periods the fourth pass finds the
  next offset 0 equal to the tail and sets the overrun flag, with the head
  at 6. A poll then returns 1. The read returns, and the head is advanced
  to 0: the next poll returns 0 with the period just read.
\<close>

theorem poll_during_read_publishes_incoming:
  "map_option ppc (run fill3 (boot ring4)) = Some (P_Read 6 0)
   \<and> map_option (tail_offset \<circ> st) (run fill3 (boot ring4)) = Some 0
   \<and> map_option (overrun \<circ> st) (run fill3 (boot ring4)) = Some True
   \<and> map_option (head_offset \<circ> st) (run fill3 (boot ring4)) = Some 6
   \<and> map_option (head_offset \<circ> st)
         (run (fill3 @ one_poll @ [Device_read 1 [7, 7], Loop_tail]) (boot ring4)) = Some 0
   \<and> map_option returned
         (run (fill3 @ one_poll @ [Device_read 1 [7, 7], Loop_tail, Loop_top] @ one_poll)
            (boot ring4))
       = Some [(1, Some [0, 0]), (0, Some [7, 7])]"
  by (simp add: fill3_def one_poll_def ring4_def boot_def loop_head_def loop_tail_def
      device_read_def store_bytes_def slice_bytes_def poll_wait_def poll_locked_def
      poll_copy_def memcpy_def publishes_def EPIPE_def Let_def)

text \<open>
  C7. When \<^verbatim>\<open>snd_pcm_readi\<close> returns \<^verbatim>\<open>-EPIPE\<close>, the iteration sets the overrun
  flag, calls \<^verbatim>\<open>snd_pcm_prepare\<close>, and leaves the head, the tail, \<^verbatim>\<open>stop\<close> and
  \<^verbatim>\<open>error\<close> as they were; the next iteration reads into the same slot.
\<close>

theorem epipe_retries_same_slot:
  "overrun (fst (loop_body (- EPIPE, d) s))
   \<and> head_offset (fst (loop_body (- EPIPE, d) s)) = head_offset s
   \<and> tail_offset (fst (loop_body (- EPIPE, d) s)) = tail_offset s
   \<and> stop (fst (loop_body (- EPIPE, d) s)) = stop s
   \<and> error (fst (loop_body (- EPIPE, d) s)) = error s
   \<and> Snd_pcm_prepare \<in> set (snd (loop_body (- EPIPE, d) s))
   \<and> fst (loop_head (fst (loop_body (- EPIPE, d) s))) = fst (loop_head s)"
  by (simp add: loop_body_def loop_head_def loop_tail_def device_read_def Let_def)

section \<open>The consumer's call\<close>

text \<open>
  C6. A call of poll with a null destination returns -1 at once, in any
  state: it does not wait, and the state it returns is the one it was given,
  offsets and flags included. Its one effect is the assignment of
  \<open>''null buffer''\<close> to the process-wide \<^verbatim>\<open>reader_thread_error\<close>, which is no
  part of the ring buffer's state.
\<close>

theorem poll_null_destination:
  "reader_thread_poll s None = Some (- 1, None, s, [Set_reader_thread_error ''null buffer''])"
  by (simp add: reader_thread_poll_def)

text \<open>
  C10. A call of poll that returns gives 0, 1 or -1. When it gives 1 or -1
  the destination is what it was. When it gives 0 the destination has
  received the bytes of the slot at the tail, which are \<^verbatim>\<open>period_bytes\<close> many
  in a well-formed state, and is unchanged beyond them.
\<close>

theorem poll_writes_only_on_success:
  "reader_thread_poll s dest = Some (ret, dest', s', effs) \<Longrightarrow>
     (ret = 0 \<or> ret = 1 \<or> ret = - 1)
   \<and> (ret \<noteq> 0 \<longrightarrow> dest' = dest)
   \<and> (ret = 0 \<longrightarrow>
        (\<exists>d d'. dest = Some d \<and> dest' = Some d'
           \<and> d' = memcpy d (slice_bytes (buf s) (tail_offset s) (period_bytes s))
           \<and> (wf_state s \<longrightarrow>
                take (nat (period_bytes s)) d' = slice_bytes (buf s) (tail_offset s) (period_bytes s)
              \<and> length (take (nat (period_bytes s)) d') = nat (period_bytes s)
              \<and> drop (nat (period_bytes s)) d' = drop (nat (period_bytes s)) d)))"
proof -
  assume call: "reader_thread_poll s dest = Some (ret, dest', s', effs)"
  have len: "length (slice_bytes (buf s) (tail_offset s) (period_bytes s)) = nat (period_bytes s)"
    if "wf_state s"
  proof -
    from that have "tail_offset s + period_bytes s \<le> buf_len s"
      unfolding wf_state_def by (intro aligned_room) auto
    with that show ?thesis by (intro length_slice) (auto simp add: wf_state_def)
  qed
  show ?thesis
  proof (cases dest)
    case None
    with call show ?thesis by (simp add: reader_thread_poll_def)
  next
    case (Some d)
    with call len show ?thesis
      by (auto simp add: reader_thread_poll_def poll_locked_def poll_copy_def memcpy_def Let_def
          split: if_splits)
  qed
qed

theorem poll_writes_only_on_success_witness:
  "reader_thread_poll
     \<lparr>buf = [1, 2, 3, 4], head_offset = 2, tail_offset = 0, period_frames = 1,
      period_bytes = 2, buf_len = 4, stop = False, overrun = False, error = False\<rparr>
     (Some [7, 7, 7])
   = Some (0, Some [1, 2, 7],
       \<lparr>buf = [1, 2, 3, 4], head_offset = 2, tail_offset = 2, period_frames = 1,
        period_bytes = 2, buf_len = 4, stop = False, overrun = False, error = False\<rparr>, [])
   \<and> wf_state \<lparr>buf = [1, 2, 3, 4], head_offset = 2, tail_offset = 0, period_frames = 1,
      period_bytes = 2, buf_len = 4, stop = False, overrun = False, error = False\<rparr>
   \<and> take 2 [1, 2, 7 :: byte] = slice_bytes [1, 2, 3, 4] 0 2
   \<and> reader_thread_poll
     \<lparr>buf = [1, 2, 3, 4], head_offset = 2, tail_offset = 0, period_frames = 1,
      period_bytes = 2, buf_len = 4, stop = False, overrun = True, error = False\<rparr>
     (Some [7, 7, 7])
   = Some (1, Some [7, 7, 7],
       \<lparr>buf = [1, 2, 3, 4], head_offset = 2, tail_offset = 2, period_frames = 1,
        period_bytes = 2, buf_len = 4, stop = False, overrun = False, error = False\<rparr>, [])"
proof -
  let ?s = "\<lparr>buf = [1, 2, 3, 4 :: byte], head_offset = 2, tail_offset = 0, period_frames = 1,
      period_bytes = 2, buf_len = 4, stop = False, overrun = False, error = False\<rparr>"
  have a: "reader_thread_poll ?s (Some [7, 7, 7]) = Some (0, Some [1, 2, 7], ?s\<lparr>tail_offset := 2\<rparr>, [])"
    by (simp add: reader_thread_poll_def poll_wait_def poll_locked_def poll_copy_def memcpy_def
        slice_bytes_def Let_def)
  have b: "reader_thread_poll (?s\<lparr>overrun := True\<rparr>) (Some [7, 7, 7])
         = Some (1, Some [7, 7, 7], ?s\<lparr>tail_offset := 2\<rparr>, [])"
    by (simp add: reader_thread_poll_def poll_wait_def poll_locked_def poll_copy_def Let_def)
  have w: "wf_state ?s" by (simp add: wf_state_def INT_MAX_def)
  from poll_writes_only_on_success [OF a] poll_writes_only_on_success [OF b] a b w
  show ?thesis by (simp add: slice_bytes_def memcpy_def)
qed

section \<open>Construction\<close>

text \<open>
  C8, as the code has it. When \<^verbatim>\<open>reader_thread_start\<close> returns a state, for
  a period size and a slot count whose product is a C \<^verbatim>\<open>int\<close> that is not
  negative, both offsets are 0, the three flags are clear, the struct records
  the period size, the frame count and the buffer length \<open>bytes * bufcount\<close>,
  and the buffer has that length. Its bytes are those of the block the
  allocator returned: the code does not clear them.
\<close>

theorem start_initial_state:
  assumes "reader_thread_start state_ok block create_rc bytes frames bufcount = (Some s, effs)"
    and "0 \<le> bytes * bufcount" and "bytes * bufcount \<le> INT_MAX"
  shows "head_offset s = 0 \<and> tail_offset s = 0 \<and> \<not> stop s \<and> \<not> overrun s \<and> \<not> error s
   \<and> period_bytes s = bytes \<and> period_frames s = frames \<and> buf_len s = bytes * bufcount
   \<and> length (buf s) = nat (bytes * bufcount)
   \<and> (\<exists>g. block = Some g \<and> buf s = map g [0 ..< nat (bytes * bufcount)])"
proof -
  from assms(2,3) have "int_mul bytes bufcount = bytes * bufcount"
    by (intro int_mul_in_range) (simp_all add: INT_MAX_def)
  with assms(1) show ?thesis
    by (auto simp add: reader_thread_start_def Let_def split: if_splits option.splits)
qed

theorem start_initial_state_witness:
  "reader_thread_start True (Some stale_block) 0 2 1 2
     = (Some \<lparr>buf = [170, 170, 170, 170], head_offset = 0, tail_offset = 0, period_frames = 1,
              period_bytes = 2, buf_len = 4, stop = False, overrun = False, error = False\<rparr>, [])
   \<and> (0 :: int) \<le> 2 * 2 \<and> (2 :: int) * 2 \<le> INT_MAX
   \<and> length [170, 170, 170, 170 :: byte] = nat (2 * 2)"
proof -
  have h: "reader_thread_start True (Some stale_block) 0 2 1 2
     = (Some \<lparr>buf = [170, 170, 170, 170], head_offset = 0, tail_offset = 0, period_frames = 1,
              period_bytes = 2, buf_len = 4, stop = False, overrun = False, error = False\<rparr>, [])"
    by (simp add: reader_thread_start_def int_mul_def Let_def stale_block_def upt_rec)
  have r: "(0 :: int) \<le> 2 * 2" "(2 :: int) * 2 \<le> INT_MAX" by (simp_all add: INT_MAX_def)
  from start_initial_state [OF h r] h r show ?thesis by simp
qed

text \<open>
  C8, as the specification words it, fails: started on a block that holds the
  byte 170 everywhere, with two slots of two bytes, the buffer holds 170 in
  its four bytes and not 0.
\<close>

theorem start_buffer_not_zeroed:
  "map_option buf (fst (reader_thread_start True (Some stale_block) 0 2 1 2))
     = Some [170, 170, 170, 170]
   \<and> map_option buf (fst (reader_thread_start True (Some stale_block) 0 2 1 2))
     \<noteq> Some [0, 0, 0, 0]"
  by (simp add: reader_thread_start_def int_mul_def Let_def stale_block_def upt_rec)


section \<open>First in, first out\<close>






section \<open>The mutex and the device\<close>



section \<open>The terminal error\<close>

text \<open>
  C5. A read result below 0 other than \<^verbatim>\<open>-EPIPE\<close> sets \<^verbatim>\<open>error\<close> and \<^verbatim>\<open>stop\<close>
  together. In every state the two threads reach with \<^verbatim>\<open>error\<close> set, \<^verbatim>\<open>stop\<close>
  is set and the capture thread is at the test of line 54 or has left the
  loop. Whatever happens from there, \<^verbatim>\<open>error\<close> and \<^verbatim>\<open>stop\<close> stay set and
  the head and the tail stay where they are; the test of line 101 is false,
  so poll does not wait, and a call of poll returns -1 and leaves the
  destination and the state as they are.
\<close>

theorem error_is_terminal:
  assumes "\<not> error s0" and "run evs (boot s0) = Some sys" and "error (st sys)"
    and "run evs' sys = Some sys'"
  shows "(rc < 0 \<and> rc \<noteq> - EPIPE \<longrightarrow>
            error (fst (loop_tail next_offset rc s)) \<and> stop (fst (loop_tail next_offset rc s)))
       \<and> stop (st sys) \<and> (ppc sys = P_Top \<or> ppc sys = P_Exit)
       \<and> error (st sys') \<and> stop (st sys') \<and> (ppc sys' = P_Top \<or> ppc sys' = P_Exit)
       \<and> head_offset (st sys') = head_offset (st sys)
       \<and> tail_offset (st sys') = tail_offset (st sys)
       \<and> \<not> poll_wait (st sys')
       \<and> reader_thread_poll (st sys') (Some d) = Some (- 1, Some d, st sys', [])
       \<and> (cpc sys' = C_Test d \<longrightarrow>
            step Poll_test sys' = Some (sys'\<lparr>mu := None, cpc := C_Copy (- 1) None d\<rparr>))"
proof -
  from assms(1) have "err_inv (boot s0)" by (simp add: err_inv_def boot_def)
  with assms(2) have inv: "err_inv sys" by (rule run_err_inv)
  with assms(4) have inv': "err_inv sys'" by (rule run_err_inv)
  from run_after_error [OF assms(4) inv assms(3)]
  have k: "error (st sys')" "head_offset (st sys') = head_offset (st sys)"
    "tail_offset (st sys') = tail_offset (st sys)" by simp_all
  from inv assms(3) have a: "stop (st sys)" "ppc sys = P_Top \<or> ppc sys = P_Exit"
    by (simp_all add: err_inv_def)
  from inv' k(1) have b: "stop (st sys')" "ppc sys' = P_Top \<or> ppc sys' = P_Exit"
    by (simp_all add: err_inv_def)
  from k(1) have w: "\<not> poll_wait (st sys')" by (simp add: poll_wait_def)
  from k(1) have pl: "poll_locked (st sys') = (- 1, None, st sys')" by (rule poll_locked_error)
  with w have p: "reader_thread_poll (st sys') (Some d) = Some (- 1, Some d, st sys', [])"
    by (simp add: reader_thread_poll_def poll_copy_def)
  have t: "step Poll_test sys' = Some (sys'\<lparr>mu := None, cpc := C_Copy (- 1) None d\<rparr>)"
    if "cpc sys' = C_Test d"
    using that w pl by simp
  have f: "error (fst (loop_tail next_offset rc s)) \<and> stop (fst (loop_tail next_offset rc s))"
    if "rc < 0 \<and> rc \<noteq> - EPIPE"
    using that by (simp add: loop_tail_def)
  from a b k w p t f show ?thesis by blast
qed

theorem error_is_terminal_witness:
  "\<not> error ring4
   \<and> run [Thread_lock, Loop_top, Device_read (- 5) [], Loop_tail] (boot ring4)
     = Some \<lparr>st = ring4\<lparr>error := True, stop := True\<rparr>, mu = Some Producer, ppc = P_Top,
             cpc = C_Idle, effects = [Set_reader_thread_error ''snd_pcm_readi''],
             returned = [], unread = []\<rparr>
   \<and> run [Loop_top]
        \<lparr>st = ring4\<lparr>error := True, stop := True\<rparr>, mu = Some Producer, ppc = P_Top,
         cpc = C_Idle, effects = [Set_reader_thread_error ''snd_pcm_readi''],
         returned = [], unread = []\<rparr>
     = Some \<lparr>st = ring4\<lparr>error := True, stop := True\<rparr>, mu = None, ppc = P_Exit,
             cpc = C_Idle, effects = [Set_reader_thread_error ''snd_pcm_readi''],
             returned = [], unread = []\<rparr>
   \<and> reader_thread_poll (ring4\<lparr>error := True, stop := True\<rparr>) (Some [0, 0])
     = Some (- 1, Some [0, 0], ring4\<lparr>error := True, stop := True\<rparr>, [])"
proof -
  let ?sys = "\<lparr>st = ring4\<lparr>error := True, stop := True\<rparr>, mu = Some Producer, ppc = P_Top,
      cpc = C_Idle, effects = [Set_reader_thread_error ''snd_pcm_readi''], returned = [],
      unread = []\<rparr>"
  let ?sys' = "\<lparr>st = ring4\<lparr>error := True, stop := True\<rparr>, mu = None, ppc = P_Exit,
      cpc = C_Idle, effects = [Set_reader_thread_error ''snd_pcm_readi''], returned = [],
      unread = []\<rparr>"
  have e0: "\<not> error ring4" by (simp add: ring4_def)
  have h: "run [Thread_lock, Loop_top, Device_read (- 5) [], Loop_tail] (boot ring4) = Some ?sys"
    by (simp add: boot_def ring4_def loop_head_def loop_tail_def device_read_def
        store_bytes_def publishes_def EPIPE_def Let_def)
  have e: "error (st ?sys)" by simp
  have h': "run [Loop_top] ?sys = Some ?sys'" by simp
  from error_is_terminal [OF e0 h e h', of "- 5" 0 ring4 "[0, 0]"]
  have "reader_thread_poll (st ?sys') (Some [0, 0]) = Some (- 1, Some [0, 0], st ?sys', [])"
    by blast
  then have "reader_thread_poll (ring4\<lparr>error := True, stop := True\<rparr>) (Some [0, 0])
     = Some (- 1, Some [0, 0], ring4\<lparr>error := True, stop := True\<rparr>, [])"
    by simp
  with e0 h h' show ?thesis by blast
qed

lemma step_head_change:
  assumes "step e sys = Some sys'" and "head_offset (st sys') \<noteq> head_offset (st sys)"
  shows "unread sys' \<noteq> []"
proof (cases e)
  case Loop_top
  with assms show ?thesis by (auto simp add: loop_head_eq split: if_splits)
next
  case Loop_tail
  from assms(1) Loop_tail obtain nxt rc where pc: "ppc sys = P_Relock nxt rc"
    by (auto split: producer_pc.splits)
  with assms(1) Loop_tail have st': "st sys' = fst (loop_tail nxt rc (st sys))"
    and u: "unread sys' = (if publishes rc (st sys)
                 then unread sys @ [slice_bytes (buf (st sys)) (head_offset (st sys))
                                      (period_bytes (st sys))]
                 else unread sys)"
    by (auto split: if_splits prod.splits)
  from assms(2) st' loop_tail_keeps [of rc "st sys" nxt] have "publishes rc (st sys)" by auto
  with u show ?thesis by simp
next
  case Poll_test
  with assms show ?thesis
    by (auto simp add: poll_locked_cases split: consumer_pc.splits if_splits)
next
  case (Device_read rc d)
  with assms show ?thesis by (auto split: producer_pc.splits)
qed (use assms in \<open>auto split: if_splits option.splits consumer_pc.splits\<close>)

section \<open>Empty and full\<close>

text \<open>
  C2. On a buffer started with a positive period size and at least two slots,
  in every state the two threads reach: the head equals the tail exactly when
  no published period is unread; the unread periods are at most the slot
  count less one, and they are the periods between the tail and the head;
  and a step of either thread that changes the head leaves it different from
  the tail, with a period to read.
\<close>

theorem head_meets_tail_only_when_empty:
  assumes vp: "valid_params bytes bufcount"
    and st: "reader_thread_start state_ok block create_rc bytes frames bufcount = (Some s0, effs)"
    and run: "run evs (boot s0) = Some sys"
  shows "(head_offset (st sys) = tail_offset (st sys) \<longleftrightarrow> unread sys = [])
       \<and> int (length (unread sys)) \<le> bufcount - 1
       \<and> gap (buf_len (st sys)) (tail_offset (st sys)) (head_offset (st sys))
           = int (length (unread sys)) * bytes
       \<and> (step e sys = Some sys' \<and> head_offset (st sys') \<noteq> head_offset (st sys) \<longrightarrow>
            head_offset (st sys') \<noteq> tail_offset (st sys') \<and> unread sys' \<noteq> [])"
proof -
  let ?s = "st sys"
  from start_wf [OF vp st] have s0: "wf_state s0" "head_offset s0 = 0" "tail_offset s0 = 0"
    "period_bytes s0 = bytes" "buf_len s0 = bytes * bufcount" by simp_all
  then have "ring_inv (boot s0)" by (simp add: ring_inv_def boot_def gap_def)
  with run have inv: "ring_inv sys" by (rule run_ring_inv)
  from run_geometry [OF run] s0 have geo: "period_bytes ?s = bytes" "buf_len ?s = bytes * bufcount"
    by (simp_all add: boot_def)
  from vp have pos: "0 < bytes" by (simp add: valid_params_def)
  from inv have wf: "wf_state ?s"
    and g: "int (length (unread sys)) * period_bytes ?s
        = gap (buf_len ?s) (tail_offset ?s) (head_offset ?s)"
    by (simp_all add: ring_inv_def)
  from g geo have g': "gap (buf_len ?s) (tail_offset ?s) (head_offset ?s)
      = int (length (unread sys)) * bytes" by simp
  from gap_zero_iff [OF wf] g' pos
  have a: "head_offset ?s = tail_offset ?s \<longleftrightarrow> unread sys = []" by auto
  from gap_bound [OF wf] g' geo have "int (length (unread sys)) * bytes \<le> bytes * bufcount - bytes"
    by simp
  then have "int (length (unread sys)) * bytes \<le> (bufcount - 1) * bytes"
    by (simp add: algebra_simps)
  with pos have b: "int (length (unread sys)) \<le> bufcount - 1"
    by (simp add: mult_le_cancel_right)
  have c: "head_offset (st sys') \<noteq> tail_offset (st sys') \<and> unread sys' \<noteq> []"
    if s: "step e sys = Some sys'" and ch: "head_offset (st sys') \<noteq> head_offset (st sys)"
  proof -
    from s inv have inv': "ring_inv sys'" by (rule step_ring_inv)
    from s ch have u: "unread sys' \<noteq> []" by (rule step_head_change)
    from inv' have wf': "wf_state (st sys')"
      and g1: "int (length (unread sys')) * period_bytes (st sys')
        = gap (buf_len (st sys')) (tail_offset (st sys')) (head_offset (st sys'))"
      by (simp_all add: ring_inv_def)
    from wf' have "0 < period_bytes (st sys')" by (simp add: wf_state_def)
    with u g1 have "gap (buf_len (st sys')) (tail_offset (st sys')) (head_offset (st sys')) \<noteq> 0"
      by auto
    with gap_zero_iff [OF wf'] u show ?thesis by simp
  qed
  from a b g' c show ?thesis by blast
qed

theorem head_meets_tail_only_when_empty_witness:
  "valid_params 2 4
   \<and> reader_thread_start True (Some stale_block) 0 2 1 4
     = (Some \<lparr>buf = [170, 170, 170, 170, 170, 170, 170, 170], head_offset = 0,
              tail_offset = 0, period_frames = 1, period_bytes = 2, buf_len = 8,
              stop = False, overrun = False, error = False\<rparr>, [])
   \<and> run [Thread_lock, Loop_top, Device_read 1 [1, 1]]
        (boot \<lparr>buf = [170, 170, 170, 170, 170, 170, 170, 170], head_offset = 0,
              tail_offset = 0, period_frames = 1, period_bytes = 2, buf_len = 8,
              stop = False, overrun = False, error = False\<rparr>)
     = Some \<lparr>st = \<lparr>buf = [1, 1, 170, 170, 170, 170, 170, 170], head_offset = 0,
                   tail_offset = 0, period_frames = 1, period_bytes = 2, buf_len = 8,
                   stop = False, overrun = False, error = False\<rparr>,
             mu = None, ppc = P_Relock 2 1, cpc = C_Idle, effects = [], returned = [],
             unread = []\<rparr>
   \<and> step Loop_tail
        \<lparr>st = \<lparr>buf = [1, 1, 170, 170, 170, 170, 170, 170], head_offset = 0,
               tail_offset = 0, period_frames = 1, period_bytes = 2, buf_len = 8,
               stop = False, overrun = False, error = False\<rparr>,
         mu = None, ppc = P_Relock 2 1, cpc = C_Idle, effects = [], returned = [],
         unread = []\<rparr>
     = Some \<lparr>st = \<lparr>buf = [1, 1, 170, 170, 170, 170, 170, 170], head_offset = 2,
                   tail_offset = 0, period_frames = 1, period_bytes = 2, buf_len = 8,
                   stop = False, overrun = False, error = False\<rparr>,
             mu = Some Producer, ppc = P_Top, cpc = C_Idle,
             effects = [Pthread_cond_signal], returned = [], unread = [[1, 1]]\<rparr>
   \<and> (2 :: int) \<noteq> 0"
proof -
  let ?s0 = "\<lparr>buf = [170, 170, 170, 170, 170, 170, 170, 170 :: byte], head_offset = 0,
              tail_offset = 0, period_frames = 1, period_bytes = 2, buf_len = 8,
              stop = False, overrun = False, error = False\<rparr>"
  let ?s1 = "\<lparr>buf = [1, 1, 170, 170, 170, 170, 170, 170 :: byte], head_offset = 0,
                   tail_offset = 0, period_frames = 1, period_bytes = 2, buf_len = 8,
                   stop = False, overrun = False, error = False\<rparr>"
  let ?sys1 = "\<lparr>st = ?s1, mu = None, ppc = P_Relock 2 1, cpc = C_Idle, effects = [],
      returned = [], unread = []\<rparr>"
  let ?sys2 = "\<lparr>st = ?s1\<lparr>head_offset := 2\<rparr>, mu = Some Producer, ppc = P_Top, cpc = C_Idle,
      effects = [Pthread_cond_signal], returned = [], unread = [[1, 1 :: byte]]\<rparr>"
  have vp: "valid_params 2 4" by (simp add: valid_params_def INT_MAX_def)
  have st: "reader_thread_start True (Some stale_block) 0 2 1 4 = (Some ?s0, [])"
    by (simp add: reader_thread_start_def int_mul_def Let_def stale_block_def upt_rec)
  have h: "run [Thread_lock, Loop_top, Device_read 1 [1, 1]] (boot ?s0) = Some ?sys1"
    by (simp add: boot_def loop_head_def device_read_def store_bytes_def Let_def)
  have s: "step Loop_tail ?sys1 = Some ?sys2"
    by (simp add: loop_tail_def publishes_def slice_bytes_def EPIPE_def)
  have ch: "head_offset (st ?sys2) \<noteq> head_offset (st ?sys1)" by simp
  from head_meets_tail_only_when_empty [OF vp st h, of Loop_tail ?sys2] s ch
  have "head_offset (st ?sys2) \<noteq> tail_offset (st ?sys2)" by blast
  then have "(2 :: int) \<noteq> 0" by simp
  with vp st h s show ?thesis by simp
qed

end
